theory Spec2Isabelle
  imports Main "HOL-Library.Multiset" "HOL-Library.Sublist"
begin

section \<open>Slices and run-time panics\<close>

text \<open>
  The library \<^verbatim>\<open>fn\<close> (file \<^verbatim>\<open>fn.go\<close>) is a set of generic functions over Go slices.
  A slice is modelled by the list of its elements (indices \<open>0 ..< len\<close>). The capacity is
  not modelled: every slice expression of \<^verbatim>\<open>fn.go\<close> has an upper bound that is at most
  \<^verbatim>\<open>len(slice)\<close> wherever it is reached, and a Go slice always has \<^verbatim>\<open>len \<le> cap\<close>, so
  the bounds checks below, written against the length, pass or fail exactly when Go's do.

  Go's \<^verbatim>\<open>int\<close> arguments are modelled by \<open>int\<close>: every machine integer is one, and the
  functions do no arithmetic on them that could overflow (only comparisons).

  A run-time panic is a value: functions that index or re-slice return \<open>panic + 'a\<close>.
\<close>

datatype panic = SliceBoundsOutOfRange | IndexOutOfRange

text \<open>\<^verbatim>\<open>s[:hi]\<close>: Go panics unless \<^verbatim>\<open>0 <= hi <= cap(s)\<close>.\<close>

definition slice_to :: "'a list \<Rightarrow> int \<Rightarrow> panic + 'a list" where
  "slice_to s hi =
     (if 0 \<le> hi \<and> hi \<le> int (length s) then Inr (take (nat hi) s)
      else Inl SliceBoundsOutOfRange)"

text \<open>\<^verbatim>\<open>s[lo:]\<close>: Go panics unless \<^verbatim>\<open>0 <= lo <= len(s)\<close>.\<close>

definition slice_from :: "'a list \<Rightarrow> int \<Rightarrow> panic + 'a list" where
  "slice_from s lo =
     (if 0 \<le> lo \<and> lo \<le> int (length s) then Inr (drop (nat lo) s)
      else Inl SliceBoundsOutOfRange)"

text \<open>\<^verbatim>\<open>s[lo:hi:max]\<close>: Go panics unless \<^verbatim>\<open>0 <= lo <= hi <= max <= cap(s)\<close>.\<close>

definition slice3 :: "'a list \<Rightarrow> int \<Rightarrow> int \<Rightarrow> int \<Rightarrow> panic + 'a list" where
  "slice3 s lo hi mx =
     (if 0 \<le> lo \<and> lo \<le> hi \<and> hi \<le> mx \<and> mx \<le> int (length s)
      then Inr (take (nat hi - nat lo) (drop (nat lo) s))
      else Inl SliceBoundsOutOfRange)"

section \<open>Clamp\<close>

text \<open>
  \<^verbatim>\<open>func Clamp[T cmp.Ordered](value, min, max T) T\<close>: two comparisons in sequence, the
  lower bound first. Only \<open><\<close> is used, so the model asks nothing of the order.
\<close>

definition Clamp :: "'a::ord \<Rightarrow> 'a \<Rightarrow> 'a \<Rightarrow> 'a" where
  "Clamp v lo hi = (if v < lo then lo else if v > hi then hi else v)"

section \<open>Limit\<close>

text \<open>\<^verbatim>\<open>func Limit[T any](slice []T, n int) []T { return slice[:min(len(slice), n)] }\<close>\<close>

definition Limit :: "'a list \<Rightarrow> int \<Rightarrow> panic + 'a list" where
  "Limit slice n = slice_to slice (min (int (length slice)) n)"

section \<open>Filter\<close>

text \<open>
  \<^verbatim>\<open>Filter\<close> appends the elements that satisfy \<^verbatim>\<open>pred\<close> to a fresh result, walking
  the input with \<^verbatim>\<open>for _, x := range slice\<close>. The input is not written, so the walk is a
  recursion over its elements; \<open>result\<close> is the accumulator of the loop.
\<close>

fun Filter_loop :: "('a \<Rightarrow> bool) \<Rightarrow> 'a list \<Rightarrow> 'a list \<Rightarrow> 'a list" where
  "Filter_loop pred [] result = result"
| "Filter_loop pred (x # xs) result =
     Filter_loop pred xs (if pred x then result @ [x] else result)"

definition Filter :: "'a list \<Rightarrow> ('a \<Rightarrow> bool) \<Rightarrow> 'a list" where
  "Filter slice pred = Filter_loop pred slice []"

section \<open>Reduce\<close>

text \<open>
  \<^verbatim>\<open>result := initial; for i := range slice { result = f(result, slice[i]) }; return result\<close>.
  The loop runs over the indices; \<^verbatim>\<open>slice[i]\<close> is read under the loop's own bound.
\<close>

function Reduce_loop :: "'a list \<Rightarrow> ('r \<Rightarrow> 'a \<Rightarrow> 'r) \<Rightarrow> nat \<Rightarrow> 'r \<Rightarrow> 'r" where
  "Reduce_loop slice f i result =
     (if i < length slice then Reduce_loop slice f (i + 1) (f result (slice ! i))
      else result)"
  by pat_completeness auto
termination
  by (relation "measure (\<lambda>(slice, f, i, result). length slice - i)") auto

declare Reduce_loop.simps [simp del]

definition Reduce :: "'a list \<Rightarrow> 'r \<Rightarrow> ('r \<Rightarrow> 'a \<Rightarrow> 'r) \<Rightarrow> 'r" where
  "Reduce slice initial f = Reduce_loop slice f 0 initial"

text \<open>
  Go's \<^verbatim>\<open>+\<close> on \<^verbatim>\<open>int\<close> (64 bits, two's complement): the sum wraps around silently.
  This is the accumulator of the test \<^verbatim>\<open>func(acc, v int) int { return acc + v }\<close>.
\<close>

definition wrap64 :: "int \<Rightarrow> int" where
  "wrap64 x = (x + 2 ^ 63) mod 2 ^ 64 - 2 ^ 63"

definition add_int64 :: "int \<Rightarrow> int \<Rightarrow> int" where
  "add_int64 a b = wrap64 (a + b)"

text \<open>
  The specification's words for \<^verbatim>\<open>Reduce\<close>, to compare with the loop: the accumulator
  sequence \<open>acc\<^sub>0 = initial\<close>, \<open>acc\<^sub>i = f (acc\<^sub>i\<^sub>-\<^sub>1) (seq[i])\<close> (the \<open>i\<close>-th step consumes the
  element at zero-based index \<open>i - 1\<close>).
\<close>

primrec spec_acc :: "('r \<Rightarrow> 'a \<Rightarrow> 'r) \<Rightarrow> 'r \<Rightarrow> 'a list \<Rightarrow> nat \<Rightarrow> 'r" where
  "spec_acc f initial seq 0 = initial"
| "spec_acc f initial seq (Suc i) = f (spec_acc f initial seq i) (seq ! i)"

section \<open>Unique\<close>

text \<open>
  \<^verbatim>\<open>Unique\<close> compacts the slice in place. The \<^verbatim>\<open>range\<close> loop reads element \<open>i\<close> of the
  backing array at iteration \<open>i\<close>, while the body writes \<^verbatim>\<open>slice[n] = v\<close> into the same
  array, so the model threads the array through the loop: \<open>i\<close> is the read index,
  \<open>n\<close> the write index, \<open>seen\<close> the key set of the map \<^verbatim>\<open>seen\<close>. The write is
  bounds-checked as Go does. Key lookup is HOL equality: the element types meant are
  those whose \<^verbatim>\<open>==\<close> is a total equivalence (integers, strings, booleans, structs of
  these), not floating-point \<^verbatim>\<open>NaN\<close> and not interface values of uncomparable types.
\<close>

function Unique_loop :: "'a list \<Rightarrow> nat \<Rightarrow> 'a set \<Rightarrow> nat \<Rightarrow> panic + 'a list \<times> nat" where
  "Unique_loop slice i seen n =
     (if i < length slice then
        (if slice ! i \<in> seen then Unique_loop slice (i + 1) seen n
         else if n < length slice
           then Unique_loop (slice[n := slice ! i]) (i + 1) (insert (slice ! i) seen) (n + 1)
           else Inl IndexOutOfRange)
      else Inr (slice, n))"
  by pat_completeness auto
termination
  by (relation "measure (\<lambda>(slice, i, seen, n). length slice - i)") auto

declare Unique_loop.simps [simp del]

text \<open>\<^verbatim>\<open>for i := n; i < len(slice); i++ { slice[i] = zero }\<close>\<close>

function zero_from :: "'a \<Rightarrow> 'a list \<Rightarrow> nat \<Rightarrow> 'a list" where
  "zero_from zero slice i =
     (if i < length slice then zero_from zero (slice[i := zero]) (i + 1) else slice)"
  by pat_completeness auto
termination
  by (relation "measure (\<lambda>(zero, slice, i). length slice - i)") auto

declare zero_from.simps [simp del]

text \<open>
  \<open>zero\<close> is the zero value of the element type (\<^verbatim>\<open>var zero T\<close>), a parameter of the
  model. The result is the view \<^verbatim>\<open>slice[:n]\<close> of the compacted array.
\<close>

definition Unique :: "'a \<Rightarrow> 'a list \<Rightarrow> panic + 'a list" where
  "Unique zero slice =
     (if length slice \<le> 1 then Inr slice
      else case Unique_loop slice 0 {} 0 of
             Inl e \<Rightarrow> Inl e
           | Inr (slice', n) \<Rightarrow> slice_to (zero_from zero slice' n) (int n))"

text \<open>
  What \<^verbatim>\<open>Unique\<close> is meant to return, stated on the input alone: the elements at
  the positions that hold the first occurrence of their value, in index order.
\<close>

definition first_occurrences :: "'a list \<Rightarrow> 'a list" where
  "first_occurrences s =
     map (\<lambda>i. s ! i) (filter (\<lambda>i. s ! i \<notin> set (take i s)) [0..<length s])"

text \<open>The same walk with the set of values already met made explicit (used in the proofs).\<close>

fun unseen :: "'a set \<Rightarrow> 'a list \<Rightarrow> 'a list" where
  "unseen seen [] = []"
| "unseen seen (x # xs) =
     (if x \<in> seen then unseen seen xs else x # unseen (insert x seen) xs)"

section \<open>Reverse\<close>

text \<open>
  \<^verbatim>\<open>for left, right := 0, len(a)-1; left < right; left, right = left+1, right-1 {
      a[left], a[right] = a[right], a[left] }\<close>
  The indices are Go \<^verbatim>\<open>int\<close>s (\<open>right\<close> starts at \<open>-1\<close> on the empty slice); both
  index expressions are bounds-checked. The function returns nothing: the model
  returns the contents of \<open>a\<close> after the call.
\<close>

function Reverse_loop :: "'a list \<Rightarrow> int \<Rightarrow> int \<Rightarrow> panic + 'a list" where
  "Reverse_loop a left right =
     (if left < right then
        (if 0 \<le> left \<and> left < int (length a) \<and> 0 \<le> right \<and> right < int (length a)
         then Reverse_loop (a[nat left := a ! nat right, nat right := a ! nat left])
                (left + 1) (right - 1)
         else Inl IndexOutOfRange)
      else Inr a)"
  by pat_completeness auto
termination
  by (relation "measure (\<lambda>(a, left, right). nat (right - left))") auto

declare Reverse_loop.simps [simp del]

definition Reverse :: "'a list \<Rightarrow> panic + 'a list" where
  "Reverse a = Reverse_loop a 0 (int (length a) - 1)"

section \<open>Batch\<close>

text \<open>
  \<^verbatim>\<open>Batch\<close> returns \<^verbatim>\<open>nil\<close> for a non-positive size, and its test tells \<^verbatim>\<open>nil\<close> from an
  empty slice, so the slice of batches keeps the distinction.
\<close>

datatype 'a go_slice = GoNil | GoSlice "'a list"

fun elems :: "'a go_slice \<Rightarrow> 'a list" where
  "elems GoNil = []"
| "elems (GoSlice xs) = xs"

fun go_append :: "'a go_slice \<Rightarrow> 'a \<Rightarrow> 'a go_slice" where
  "go_append GoNil x = GoSlice [x]"
| "go_append (GoSlice xs) x = GoSlice (xs @ [x])"

text \<open>Several appends in a row (used to state what the loop of \<^verbatim>\<open>Batch\<close> has appended).\<close>

fun go_extend :: "'a go_slice \<Rightarrow> 'a list \<Rightarrow> 'a go_slice" where
  "go_extend b [] = b"
| "go_extend b (c # cs) = go_extend (go_append b c) cs"

text \<open>
  \<^verbatim>\<open>for batchSize < len(slice) {
      slice, batches = slice[batchSize:], append(batches, slice[0:batchSize:batchSize]) }\<close>
  Nothing in the loop itself makes it end (with \<^verbatim>\<open>batchSize = 0\<close> it would spin), so it
  is a partial function: \<open>None\<close> is "does not return". Both slice expressions are
  evaluated on the old \<open>slice\<close>, left to right.
\<close>

partial_function (option) Batch_loop ::
  "'a list \<Rightarrow> int \<Rightarrow> 'a list go_slice \<Rightarrow> (panic + 'a list \<times> 'a list go_slice) option" where
  "Batch_loop slice batchSize batches =
     (if batchSize < int (length slice) then
        (case slice_from slice batchSize of
           Inl e \<Rightarrow> Some (Inl e)
         | Inr rest \<Rightarrow>
             (case slice3 slice 0 batchSize batchSize of
                Inl e \<Rightarrow> Some (Inl e)
              | Inr chunk \<Rightarrow> Batch_loop rest batchSize (go_append batches chunk)))
      else Some (Inr (slice, batches)))"

declare Batch_loop.simps [code]

definition Batch :: "'a list \<Rightarrow> int \<Rightarrow> (panic + 'a list go_slice) option" where
  "Batch slice batchSize =
     (if batchSize \<le> 0 then Some (Inr GoNil)
      else case Batch_loop slice batchSize GoNil of
             None \<Rightarrow> None
           | Some (Inl e) \<Rightarrow> Some (Inl e)
           | Some (Inr (slice', batches)) \<Rightarrow>
               Some (Inr (if length slice' > 0 then go_append batches slice' else batches)))"

section \<open>First\<close>

text \<open>
  \<^verbatim>\<open>for _, x := range slice { if pred(x) { return x, true } }; var zero T; return zero, false\<close>
\<close>

fun First :: "'a \<Rightarrow> 'a list \<Rightarrow> ('a \<Rightarrow> bool) \<Rightarrow> 'a \<times> bool" where
  "First zero [] pred = (zero, False)"
| "First zero (x # xs) pred = (if pred x then (x, True) else First zero xs pred)"

section \<open>Delete\<close>

text \<open>
  \<^verbatim>\<open>Delete\<close> is \<^verbatim>\<open>slices.DeleteFunc(slice, func(el T) bool { return el == value })\<close>.
  \<^verbatim>\<open>slices.DeleteFunc\<close> and \<^verbatim>\<open>slices.IndexFunc\<close> belong to the Go standard library
  (package \<^verbatim>\<open>slices\<close>), not to this repository; they are modelled after the library's
  source:
  \<^verbatim>\<open>
  func IndexFunc(s, f) int {
      for i := range s { if f(s[i]) { return i } }
      return -1 }
  func DeleteFunc(s, del) S {
      i := IndexFunc(s, del)
      if i == -1 { return s }
      for j := i + 1; j < len(s); j++ {
          if v := s[j]; !del(v) { s[i] = v; i++ } }
      clear(s[i:])
      return s[:i] }
  \<close>
\<close>

function IndexFunc_loop :: "'a list \<Rightarrow> ('a \<Rightarrow> bool) \<Rightarrow> nat \<Rightarrow> int" where
  "IndexFunc_loop s f i =
     (if i < length s then (if f (s ! i) then int i else IndexFunc_loop s f (i + 1))
      else - 1)"
  by pat_completeness auto
termination
  by (relation "measure (\<lambda>(s, f, i). length s - i)") auto

declare IndexFunc_loop.simps [simp del]

definition slices_IndexFunc :: "'a list \<Rightarrow> ('a \<Rightarrow> bool) \<Rightarrow> int" where
  "slices_IndexFunc s f = IndexFunc_loop s f 0"

function DeleteFunc_loop ::
  "'a list \<Rightarrow> ('a \<Rightarrow> bool) \<Rightarrow> int \<Rightarrow> int \<Rightarrow> panic + 'a list \<times> int" where
  "DeleteFunc_loop s del i j =
     (if j < int (length s) then
        (if 0 \<le> j then
           (if \<not> del (s ! nat j) then
              (if 0 \<le> i \<and> i < int (length s)
               then DeleteFunc_loop (s[nat i := s ! nat j]) del (i + 1) (j + 1)
               else Inl IndexOutOfRange)
            else DeleteFunc_loop s del i (j + 1))
         else Inl IndexOutOfRange)
      else Inr (s, i))"
  by pat_completeness auto
termination
  by (relation "measure (\<lambda>(s, del, i, j). nat (int (length s) - j))") auto

declare DeleteFunc_loop.simps [simp del]

definition slices_DeleteFunc :: "'a \<Rightarrow> 'a list \<Rightarrow> ('a \<Rightarrow> bool) \<Rightarrow> panic + 'a list" where
  "slices_DeleteFunc zero s del =
     (let i = slices_IndexFunc s del in
      if i = - 1 then Inr s
      else case DeleteFunc_loop s del i (i + 1) of
             Inl e \<Rightarrow> Inl e
           | Inr (s', i') \<Rightarrow>
               (case slice_from s' i' of
                  Inl e \<Rightarrow> Inl e
                | Inr obsolete \<Rightarrow> slice_to (zero_from zero s' (nat i')) i'))"

definition Delete :: "'a \<Rightarrow> 'a list \<Rightarrow> 'a \<Rightarrow> panic + 'a list" where
  "Delete zero slice v = slices_DeleteFunc zero slice (\<lambda>el. el = v)"

section \<open>Clamp: the lower bound is checked first\<close>

text \<open>
  Claim C9. \<^verbatim>\<open>Clamp\<close> compares with the lower bound first, so it is defined whatever the
  order of the bounds: if \<open>value < lo\<close> it returns \<open>lo\<close> (also when \<open>lo > hi\<close>);
  otherwise, if \<open>value > hi\<close>, it returns \<open>hi\<close>; otherwise it returns \<open>value\<close>.
\<close>

theorem Clamp_lower_bound_first:
  "(v < lo \<longrightarrow> Clamp v lo hi = lo) \<and>
   (\<not> v < lo \<and> v > hi \<longrightarrow> Clamp v lo hi = hi) \<and>
   (\<not> v < lo \<and> \<not> v > hi \<longrightarrow> Clamp v lo hi = v)"
  by (simp add: Clamp_def)

theorem Clamp_lower_bound_first_witness:
  "(5::int) < 10 \<and> Clamp (5::int) 10 0 = 10 \<and>
   \<not> (11::int) < 0 \<and> (11::int) > 10 \<and> Clamp (11::int) 0 10 = 10 \<and>
   \<not> (5::int) < 0 \<and> \<not> (5::int) > 10 \<and> Clamp (5::int) 0 10 = 5"
  using Clamp_lower_bound_first [of "5::int" 10 0]
    Clamp_lower_bound_first [of "11::int" 0 10]
    Clamp_lower_bound_first [of "5::int" 0 10]
  by simp

section \<open>Limit: a count below zero\<close>

text \<open>
  For \<open>n \<ge> 0\<close> the call returns the first \<open>min n (len s)\<close> elements. For \<open>n < 0\<close> the
  bound \<^verbatim>\<open>min(len(slice), n)\<close> is \<open>n\<close> itself and the slice expression panics: the
  upper end of the range is clamped, the lower end is not.
\<close>

lemma Limit_nonneg: "0 \<le> n \<Longrightarrow> Limit s n = Inr (take (nat n) s)"
  by (auto simp: Limit_def slice_to_def min_def)

lemma Limit_neg: "n < 0 \<Longrightarrow> Limit s n = Inl SliceBoundsOutOfRange"
  by (auto simp: Limit_def slice_to_def min_def)

lemma Limit_prefix:
  "0 \<le> n \<Longrightarrow> \<exists>r. Limit s n = Inr r \<and> prefix r s \<and> int (length r) = min n (int (length s))"
  by (auto simp: Limit_nonneg take_is_prefix)

text \<open>
  Claim C1. Every operation, on every input shape (empty sequences, zero or negative
  sizes, in particular \<^verbatim>\<open>Limit\<close> with \<open>n < 0\<close>), completes with a defined return value
  and never panics. The code at the empty slice and \<open>n = -1\<close>: \<^verbatim>\<open>Limit\<close> panics.
\<close>

theorem Limit_empty_negative_panics:
  "Limit ([] :: int list) (- 1) = Inl SliceBoundsOutOfRange"
  by (simp add: Limit_def slice_to_def)

text \<open>
  Claim C2. \<^verbatim>\<open>Limit(s, n)\<close> has length \<open>min (max n 0) (len s)\<close> and is a prefix of \<open>s\<close>; any
  \<open>n \<le> 0\<close> yields the empty result. The code at \<open>s = [1, 2, 3]\<close> and \<open>n = -1\<close>: no result
  at all, where the claim has the empty slice.
\<close>

theorem Limit_negative_no_result:
  "Limit [1, 2, 3 :: int] (- 1) = Inl SliceBoundsOutOfRange \<and>
   Limit [1, 2, 3 :: int] (- 1) \<noteq> Inr []"
  by (simp add: Limit_def slice_to_def)

section \<open>Filter is the list filter\<close>

lemma Filter_loop_filter: "Filter_loop pred xs acc = acc @ filter pred xs"
  by (induction xs arbitrary: acc) auto

lemma Filter_filter: "Filter s pred = filter pred s"
  by (simp add: Filter_def Filter_loop_filter)

section \<open>Reduce is the left fold\<close>

lemma Reduce_loop_foldl: "Reduce_loop s f i r = foldl f r (drop i s)"
proof (induction s f i r rule: Reduce_loop.induct)
  case (1 slice f i result)
  show ?case
  proof (cases "i < length slice")
    case True
    then have "drop i slice = slice ! i # drop (i + 1) slice"
      by (simp add: Cons_nth_drop_Suc)
    with True 1 show ?thesis by (subst Reduce_loop.simps) simp
  next
    case False
    then show ?thesis by (subst Reduce_loop.simps) simp
  qed
qed

lemma Reduce_foldl: "Reduce s init f = foldl f init s"
  by (simp add: Reduce_def Reduce_loop_foldl)

lemma spec_acc_foldl: "i \<le> length s \<Longrightarrow> spec_acc f init s i = foldl f init (take i s)"
  by (induction i) (simp_all add: take_Suc_conv_app_nth)

lemma foldl_plus_sum_list:
  fixes a :: "'a::monoid_add"
  shows "foldl (+) a xs = a + sum_list xs"
  by (induction xs arbitrary: a) (simp_all add: add.assoc)

lemma Reduce_plus_sum_list:
  fixes xs :: "'a::monoid_add list"
  shows "Reduce xs 0 (+) = sum_list xs"
  by (simp add: Reduce_foldl foldl_plus_sum_list)

text \<open>
  The accumulator is the caller's. When it is Go's \<^verbatim>\<open>+\<close> on the 64-bit \<^verbatim>\<open>int\<close>, the
  result is the arithmetic sum wrapped into the range of the type, and the arithmetic
  sum itself whenever that fits.
\<close>

lemma wrap64_idem: "wrap64 (wrap64 x + y) = wrap64 (x + y)"
proof -
  have "wrap64 x + y + 2 ^ 63 = (x + 2 ^ 63) mod 2 ^ 64 + y"
    by (simp add: wrap64_def)
  then have "(wrap64 x + y + 2 ^ 63) mod 2 ^ 64 = ((x + 2 ^ 63) mod 2 ^ 64 + y) mod 2 ^ 64"
    by (rule arg_cong)
  also have "\<dots> = (x + 2 ^ 63 + y) mod 2 ^ 64"
    by (rule mod_add_left_eq)
  also have "x + 2 ^ 63 + y = x + y + 2 ^ 63"
    by simp
  finally have "(wrap64 x + y + 2 ^ 63) mod 2 ^ 64 = (x + y + 2 ^ 63) mod 2 ^ 64" .
  then show ?thesis
    unfolding wrap64_def [of "wrap64 x + y"] wrap64_def [of "x + y"] by (rule arg_cong)
qed

lemma wrap64_exact: "- (2 ^ 63) \<le> x \<Longrightarrow> x < 2 ^ 63 \<Longrightarrow> wrap64 x = x"
  by (simp add: wrap64_def)

lemma foldl_add_int64: "foldl add_int64 (wrap64 a) xs = wrap64 (a + sum_list xs)"
proof (induction xs arbitrary: a)
  case Nil
  then show ?case by simp
next
  case (Cons x xs)
  have "foldl add_int64 (wrap64 a) (x # xs) = foldl add_int64 (wrap64 (a + x)) xs"
    by (simp add: add_int64_def wrap64_idem)
  also have "\<dots> = wrap64 (a + x + sum_list xs)"
    by (rule Cons.IH)
  finally show ?case by (simp add: add.assoc)
qed

lemma Reduce_add_int64: "Reduce xs 0 add_int64 = wrap64 (sum_list xs)"
  using foldl_add_int64 [of 0 xs] by (simp add: Reduce_foldl wrap64_exact)

lemma Reduce_add_int64_exact:
  "- (2 ^ 63) \<le> sum_list xs \<Longrightarrow> sum_list xs < 2 ^ 63 \<Longrightarrow> Reduce xs 0 add_int64 = sum_list xs"
  by (simp add: Reduce_add_int64 wrap64_exact)

lemma Reduce_add_int64_wraps:
  "Reduce [9223372036854775807, 1] 0 add_int64 = - 9223372036854775808"
  by (simp add: Reduce_add_int64 wrap64_def)

text \<open>
  Claim C7. \<^verbatim>\<open>Reduce(s, init, f)\<close> is the left fold of \<open>f\<close> over \<open>s\<close> in index order: the
  last term of the accumulator sequence \<open>acc\<^sub>0 = init\<close>, \<open>acc\<^sub>i = f (acc\<^sub>i\<^sub>-\<^sub>1) (s[i])\<close>. On the
  empty sequence it returns \<open>init\<close>. With \<open>0\<close> and the addition of Go's \<^verbatim>\<open>int\<close> it returns
  the arithmetic sum of the elements wrapped into the 64-bit range, which is the
  arithmetic sum itself whenever that sum lies between \<open>-2\<^sup>6\<^sup>3\<close> and \<open>2\<^sup>6\<^sup>3 - 1\<close>.
\<close>

theorem Reduce_left_fold:
  "Reduce s init f = spec_acc f init s (length s) \<and>
   Reduce s init f = foldl f init s \<and>
   Reduce [] init f = init \<and>
   Reduce xs 0 add_int64 = wrap64 (sum_list xs) \<and>
   (- (2 ^ 63) \<le> sum_list xs \<and> sum_list xs < 2 ^ 63
      \<longrightarrow> Reduce xs 0 add_int64 = sum_list xs)"
  using Reduce_foldl [of s init f] Reduce_foldl [of "[]" init f] Reduce_add_int64 [of xs]
  by (simp add: spec_acc_foldl wrap64_exact)

theorem Reduce_left_fold_witness:
  "- (2 ^ 63) \<le> sum_list [1, 2, 3, 4 :: int] \<and> sum_list [1, 2, 3, 4 :: int] < 2 ^ 63 \<and>
   Reduce [1, 2, 3, 4] 0 add_int64 = 10 \<and>
   Reduce [1, 2, 3, 4 :: int] 1 (*) = 24"
proof -
  have r: "- (2 ^ 63) \<le> sum_list [1, 2, 3, 4 :: int] \<and> sum_list [1, 2, 3, 4 :: int] < 2 ^ 63"
    by simp
  have "Reduce [1, 2, 3, 4] 0 add_int64 = sum_list [1, 2, 3, 4]"
    using Reduce_left_fold [of "[] :: int list" 0 "(+)" "[1, 2, 3, 4]"] r by blast
  moreover have "Reduce [1, 2, 3, 4 :: int] 1 (*) = foldl (*) 1 [1, 2, 3, 4]"
    using Reduce_left_fold [of "[1, 2, 3, 4 :: int]" 1 "(*)" "[]"] by blast
  ultimately show ?thesis
    using r by simp
qed

text \<open>
  The sum clause as the specification words it, "the arithmetic sum of the elements",
  fails where the sum leaves the range of \<^verbatim>\<open>int\<close>: on \<^verbatim>\<open>[]int{math.MaxInt64, 1}\<close> the code
  returns \<^verbatim>\<open>math.MinInt64\<close>.
\<close>

theorem Reduce_arithmetic_sum_counterexample:
  "Reduce [9223372036854775807, 1] 0 add_int64 = - 9223372036854775808 \<and>
   Reduce [9223372036854775807, 1] 0 add_int64 \<noteq> sum_list [9223372036854775807, 1]"
  by (simp add: Reduce_add_int64 wrap64_def)

section \<open>First: the match at the smallest index\<close>

lemma First_found:
  "i < length s \<Longrightarrow> pred (s ! i) \<Longrightarrow> (\<forall>j<i. \<not> pred (s ! j)) \<Longrightarrow>
   First zero s pred = (s ! i, True)"
proof (induction s arbitrary: i)
  case Nil
  then show ?case by simp
next
  case (Cons x xs)
  show ?case
  proof (cases i)
    case 0
    with Cons.prems show ?thesis by simp
  next
    case (Suc k)
    with Cons.prems have "\<not> pred x" by auto
    moreover have "First zero xs pred = (xs ! k, True)"
    proof (rule Cons.IH)
      show "k < length xs" using Cons.prems Suc by simp
      show "pred (xs ! k)" using Cons.prems Suc by simp
      show "\<forall>j<k. \<not> pred (xs ! j)"
      proof (intro allI impI)
        fix j assume "j < k"
        then have "Suc j < i" using Suc by simp
        with Cons.prems have "\<not> pred ((x # xs) ! Suc j)" by blast
        then show "\<not> pred (xs ! j)" by simp
      qed
    qed
    ultimately show ?thesis using Suc by simp
  qed
qed

lemma First_none: "(\<forall>x\<in>set s. \<not> pred x) \<Longrightarrow> First zero s pred = (zero, False)"
  by (induction s) auto

text \<open>
  Claim C8. \<^verbatim>\<open>First(s, pred)\<close> returns the element at the smallest index that satisfies
  \<open>pred\<close>, with \<open>true\<close>, when there is one, and the zero value with \<open>false\<close> when no
  element satisfies \<open>pred\<close>; \<^verbatim>\<open>First([5,7,9,10], isEven) = (10, true)\<close> and
  \<^verbatim>\<open>First([5,7,9], isEven) = (0, false)\<close>.
\<close>

theorem First_smallest_index:
  "(i < length s \<and> pred (s ! i) \<and> (\<forall>j<i. \<not> pred (s ! j))
      \<longrightarrow> First zero s pred = (s ! i, True)) \<and>
   ((\<forall>x\<in>set s. \<not> pred x) \<longrightarrow> First zero s pred = (zero, False)) \<and>
   First (0::int) [5, 7, 9, 10] (\<lambda>x. x mod 2 = 0) = (10, True) \<and>
   First (0::int) [5, 7, 9] (\<lambda>x. x mod 2 = 0) = (0, False)"
  using First_found [of i s pred zero] First_none [of s pred zero] by simp

theorem First_smallest_index_witness:
  "First (0::int) [5, 7, 9, 10] (\<lambda>x. x < 8 \<and> 5 < x) = (7, True) \<and>
   First (0::int) [5, 7, 9, 10] (\<lambda>x. x < 0) = (0, False)"
proof -
  have a: "(1::nat) < length [5, 7, 9, 10 :: int] \<and>
      (\<lambda>x. x < 8 \<and> 5 < x) ([5, 7, 9, 10 :: int] ! 1) \<and>
      (\<forall>j<1::nat. \<not> (\<lambda>x. x < 8 \<and> 5 < x) ([5, 7, 9, 10 :: int] ! j))"
    by simp
  have b: "\<forall>x\<in>set [5, 7, 9, 10 :: int]. \<not> x < 0"
    by simp
  from First_smallest_index [of 1 "[5, 7, 9, 10 :: int]" "\<lambda>x. x < 8 \<and> 5 < x" 0] a
  have "First (0::int) [5, 7, 9, 10] (\<lambda>x. x < 8 \<and> 5 < x) = ([5, 7, 9, 10] ! 1, True)"
    by blast
  moreover from First_smallest_index [of 0 "[5, 7, 9, 10 :: int]" "\<lambda>x. x < 0" 0] b
  have "First (0::int) [5, 7, 9, 10] (\<lambda>x. x < 0) = (0, False)"
    by blast
  ultimately show ?thesis by simp
qed

section \<open>Unique keeps the first occurrences\<close>

lemma zero_from_length: "length (zero_from zero s i) = length s"
proof (induction zero s i rule: zero_from.induct)
  case (1 zero slice i)
  show ?case
  proof (cases "i < length slice")
    case True
    with 1 show ?thesis by (subst zero_from.simps) simp
  next
    case False
    then show ?thesis by (subst zero_from.simps) simp
  qed
qed

lemma zero_from_take: "n \<le> i \<Longrightarrow> take n (zero_from zero s i) = take n s"
proof (induction zero s i rule: zero_from.induct)
  case (1 zero slice i)
  show ?case
  proof (cases "i < length slice")
    case True
    with 1 have "take n (zero_from zero (slice[i := zero]) (i + 1)) = take n (slice[i := zero])"
      by simp
    also have "\<dots> = take n slice" using "1.prems" by simp
    finally show ?thesis using True by (subst zero_from.simps) simp
  next
    case False
    then show ?thesis by (subst zero_from.simps) simp
  qed
qed

text \<open>
  The loop invariant: the write index never overtakes the read index, so the part of
  the array still to be read is the input's, and the compacted prefix grows by the
  values not met before.
\<close>

lemma Unique_loop_unseen:
  "n \<le> i \<Longrightarrow> i \<le> length s \<Longrightarrow>
   \<exists>s'. Unique_loop s i seen n = Inr (s', n + length (unseen seen (drop i s))) \<and>
        length s' = length s \<and>
        take (n + length (unseen seen (drop i s))) s' = take n s @ unseen seen (drop i s)"
proof (induction s i seen n rule: Unique_loop.induct)
  case (1 slice i seen n)
  show ?case
  proof (cases "i < length slice")
    case False
    with "1.prems" show ?thesis by (subst Unique_loop.simps) simp
  next
    case True
    then have d: "drop i slice = slice ! i # drop (i + 1) slice"
      by (simp add: Cons_nth_drop_Suc)
    show ?thesis
    proof (cases "slice ! i \<in> seen")
      case in_seen: True
      have "\<exists>s'. Unique_loop slice (i + 1) seen n =
                Inr (s', n + length (unseen seen (drop (i + 1) slice))) \<and>
              length s' = length slice \<and>
              take (n + length (unseen seen (drop (i + 1) slice))) s' =
                take n slice @ unseen seen (drop (i + 1) slice)"
        using "1.IH"(1) [OF True in_seen] "1.prems" True by simp
      then show ?thesis using True in_seen d by (subst Unique_loop.simps) simp
    next
      case fresh: False
      let ?v = "slice ! i"
      let ?s2 = "slice[n := ?v]"
      let ?u = "unseen (insert ?v seen) (drop (i + 1) slice)"
      have n_lt: "n < length slice" using "1.prems" True by simp
      have d2: "drop (i + 1) ?s2 = drop (i + 1) slice"
        using "1.prems" by simp
      have t2: "take (n + 1) ?s2 = take n slice @ [?v]"
        using n_lt by (simp add: take_Suc_conv_app_nth)
      have "\<exists>s'. Unique_loop ?s2 (i + 1) (insert ?v seen) (n + 1) =
                Inr (s', n + 1 + length (unseen (insert ?v seen) (drop (i + 1) ?s2))) \<and>
              length s' = length ?s2 \<and>
              take (n + 1 + length (unseen (insert ?v seen) (drop (i + 1) ?s2))) s' =
                take (n + 1) ?s2 @ unseen (insert ?v seen) (drop (i + 1) ?s2)"
        using "1.IH"(2) [OF True fresh n_lt] "1.prems" True by simp
      then obtain s' where
        r: "Unique_loop ?s2 (i + 1) (insert ?v seen) (n + 1) = Inr (s', n + 1 + length ?u)"
        and l: "length s' = length slice"
        and t: "take (n + 1 + length ?u) s' = take n slice @ [?v] @ ?u"
        unfolding d2 t2 by auto
      have u: "unseen seen (drop i slice) = ?v # ?u"
        using fresh d by simp
      have "Unique_loop slice i seen n = Inr (s', n + 1 + length ?u)"
        using True fresh n_lt r by (subst Unique_loop.simps) simp
      with l t u show ?thesis by simp
    qed
  qed
qed

text \<open>The walk that skips the values already met, and what it keeps.\<close>

lemma unseen_length: "length (unseen seen xs) \<le> length xs"
  by (induction xs arbitrary: seen) (auto simp: le_SucI)

lemma unseen_set: "set (unseen seen xs) = set xs - seen"
  by (induction xs arbitrary: seen) auto

lemma unseen_distinct: "distinct (unseen seen xs)"
  by (induction xs arbitrary: seen) (auto simp: unseen_set)

lemma unseen_id: "distinct xs \<Longrightarrow> set xs \<inter> seen = {} \<Longrightarrow> unseen seen xs = xs"
  by (induction xs arbitrary: seen) auto

lemma unseen_index:
  "unseen seen xs =
     map (\<lambda>i. xs ! i) (filter (\<lambda>i. xs ! i \<notin> seen \<union> set (take i xs)) [0..<length xs])"
proof (induction xs arbitrary: seen)
  case Nil
  then show ?case by simp
next
  case (Cons x xs)
  have up: "[0..<length (x # xs)] = 0 # map Suc [0..<length xs]"
    by (simp add: upt_conv_Cons map_Suc_upt del: upt_Suc)
  have tl: "map (\<lambda>i. (x # xs) ! i)
        (filter (\<lambda>i. (x # xs) ! i \<notin> seen \<union> set (take i (x # xs))) (map Suc [0..<length xs])) =
      map (\<lambda>i. xs ! i) (filter (\<lambda>i. xs ! i \<notin> insert x seen \<union> set (take i xs)) [0..<length xs])"
    by (simp add: filter_map comp_def conj_commute conj_left_commute)
  show ?case
  proof (cases "x \<in> seen")
    case True
    then have "insert x seen = seen" by auto
    with True tl Cons.IH [of seen] show ?thesis unfolding up by simp
  next
    case False
    with tl Cons.IH [of "insert x seen"] show ?thesis unfolding up by (simp add: conj_commute conj_left_commute)
  qed
qed

lemma unseen_first_occurrences: "unseen {} s = first_occurrences s"
  by (simp add: unseen_index first_occurrences_def)

lemma unseen_short: "length s \<le> 1 \<Longrightarrow> unseen {} s = s"
  by (cases s) (auto simp: le_Suc_eq)

lemma Unique_unseen: "Unique zero s = Inr (unseen {} s)"
proof (cases "length s \<le> 1")
  case True
  then show ?thesis by (simp add: Unique_def unseen_short)
next
  case False
  let ?k = "length (unseen {} s)"
  from Unique_loop_unseen [of 0 0 s "{}"]
  obtain s' where r: "Unique_loop s 0 {} 0 = Inr (s', ?k)"
    and l: "length s' = length s" and t: "take ?k s' = unseen {} s"
    by auto
  have "?k \<le> length s"
    by (rule unseen_length)
  then show ?thesis
    using False r l t by (simp add: Unique_def slice_to_def zero_from_length zero_from_take)
qed

text \<open>
  Claim C4. \<^verbatim>\<open>Unique(s)\<close> contains each distinct value of \<open>s\<close> exactly once, in the order
  of the first occurrences in \<open>s\<close>, and is no longer than \<open>s\<close>; a sequence of length at
  most one is returned unchanged.
\<close>

theorem Unique_first_occurrences:
  "Unique zero s = Inr (first_occurrences s) \<and>
   distinct (first_occurrences s) \<and>
   set (first_occurrences s) = set s \<and>
   length (first_occurrences s) \<le> length s \<and>
   (length s \<le> 1 \<longrightarrow> Unique zero s = Inr s)"
  using unseen_distinct [of "{}" s] unseen_set [of "{}" s] unseen_length [of "{}" s]
  by (simp add: Unique_unseen unseen_first_occurrences [symmetric] unseen_short)

theorem Unique_first_occurrences_witness:
  "Unique (0::int) [3, 1, 3, 1, 2] = Inr [3, 1, 2] \<and> Unique (0::int) [7] = Inr [7]"
proof -
  have f: "first_occurrences [3, 1, 3, 1, 2 :: int] = [3, 1, 2]"
    by code_simp
  have "Unique (0::int) [3, 1, 3, 1, 2] = Inr (first_occurrences [3, 1, 3, 1, 2])"
    using Unique_first_occurrences [of 0 "[3, 1, 3, 1, 2 :: int]"] by (rule conjunct1)
  moreover have "length [7::int] \<le> 1 \<longrightarrow> Unique (0::int) [7] = Inr [7]"
    using Unique_first_occurrences [of 0 "[7::int]"] by blast
  ultimately show ?thesis
    using f by simp
qed

text \<open>
  Claim C5. \<^verbatim>\<open>Unique\<close> is idempotent: applied to the result of \<^verbatim>\<open>Unique(s)\<close> it returns
  the same sequence of values.
\<close>

theorem Unique_idempotent:
  "\<exists>u. Unique zero s = Inr u \<and> Unique zero u = Inr u"
proof -
  have "unseen {} (unseen {} s) = unseen {} s"
    by (rule unseen_id) (simp_all add: unseen_distinct)
  then show ?thesis by (simp add: Unique_unseen)
qed

theorem Unique_idempotent_witness:
  "Unique (0::int) [1, 2, 2, 3, 3, 3, 4] = Inr [1, 2, 3, 4] \<and>
   Unique (0::int) [1, 2, 3, 4] = Inr [1, 2, 3, 4]"
proof -
  have "Unique (0::int) [1, 2, 2, 3, 3, 3, 4] = Inr [1, 2, 3, 4]"
    by code_simp
  with Unique_idempotent [of 0 "[1, 2, 2, 3, 3, 3, 4 :: int]"] show ?thesis
    by auto
qed


section \<open>Reverse is list reversal\<close>

text \<open>
  The two-pointer loop started at \<open>l\<close> and \<open>r\<close> mirrors the positions between them
  around their midpoint, leaves the others alone, and never indexes out of range.
\<close>

lemma Reverse_loop_mirror:
  "0 \<le> l \<Longrightarrow> r < int (length a) \<Longrightarrow>
   \<exists>b. Reverse_loop a l r = Inr b \<and> length b = length a \<and>
       (\<forall>k<length a. b ! k =
          (if l \<le> int k \<and> int k \<le> r then a ! nat (l + r - int k) else a ! k))"
proof (induction a l r rule: Reverse_loop.induct)
  case (1 a left right)
  show ?case
  proof (cases "left < right")
    case False
    have "a ! k = (if left \<le> int k \<and> int k \<le> right then a ! nat (left + right - int k) else a ! k)"
      for k
    proof (cases "left \<le> int k \<and> int k \<le> right")
      case True
      with False have "left + right - int k = int k" by linarith
      then show ?thesis by simp
    next
      case outside: False
      then show ?thesis by auto
    qed
    then show ?thesis using False by (subst Reverse_loop.simps) simp
  next
    case True
    let ?a2 = "a[nat left := a ! nat right, nat right := a ! nat left]"
    have rng: "0 \<le> left \<and> left < int (length a) \<and> 0 \<le> right \<and> right < int (length a)"
      using True "1.prems" by linarith
    have nl: "nat left < length a" and nr: "nat right < length a"
      and ne: "nat left \<noteq> nat right"
      using True rng by linarith+
    have "\<exists>b. Reverse_loop ?a2 (left + 1) (right - 1) = Inr b \<and> length b = length ?a2 \<and>
       (\<forall>k<length ?a2. b ! k =
          (if left + 1 \<le> int k \<and> int k \<le> right - 1
           then ?a2 ! nat (left + 1 + (right - 1) - int k) else ?a2 ! k))"
      using "1.IH" [OF True rng] "1.prems" by simp
    then obtain b where r: "Reverse_loop ?a2 (left + 1) (right - 1) = Inr b"
      and l: "length b = length a"
      and n: "\<And>k. k < length a \<Longrightarrow> b ! k =
          (if left + 1 \<le> int k \<and> int k \<le> right - 1
           then ?a2 ! nat (left + right - int k) else ?a2 ! k)"
      by auto
    have "b ! k = (if left \<le> int k \<and> int k \<le> right then a ! nat (left + right - int k) else a ! k)"
      if k: "k < length a" for k
    proof -
      consider (inner) "left + 1 \<le> int k \<and> int k \<le> right - 1"
        | (lo) "int k = left" | (hi) "int k = right"
        | (out) "int k < left \<or> right < int k"
        by linarith
      then show ?thesis
      proof cases
        case inner
        then have "nat (left + right - int k) \<noteq> nat left" "nat (left + right - int k) \<noteq> nat right"
          using rng by linarith+
        with inner n [OF k] show ?thesis by simp
      next
        case lo
        then have "k = nat left" by simp
        with lo n [OF k] True nl nr ne show ?thesis by (simp add: nth_list_update)
      next
        case hi
        then have "k = nat right" by simp
        with hi n [OF k] True nl nr ne show ?thesis by (simp add: nth_list_update)
      next
        case out
        then have "k \<noteq> nat left" "k \<noteq> nat right" using rng True by linarith+
        with out n [OF k] show ?thesis by auto
      qed
    qed
    moreover have "Reverse_loop a left right = Inr b"
      using True rng r by (subst Reverse_loop.simps) simp
    ultimately show ?thesis using l by simp
  qed
qed

lemma Reverse_rev: "Reverse a = Inr (rev a)"
proof -
  from Reverse_loop_mirror [of 0 "int (length a) - 1" a]
  obtain b where r: "Reverse_loop a 0 (int (length a) - 1) = Inr b"
    and l: "length b = length a"
    and n: "\<And>k. k < length a \<Longrightarrow> b ! k = a ! nat (int (length a) - 1 - int k)"
    by auto
  have "b = rev a"
  proof (rule nth_equalityI)
    show "length b = length (rev a)" using l by simp
  next
    fix k assume "k < length b"
    then have k: "k < length a" using l by simp
    then have "nat (int (length a) - 1 - int k) = length a - Suc k" by linarith
    with n [OF k] k show "b ! k = rev a ! k" by (simp add: rev_nth)
  qed
  with r show ?thesis by (simp add: Reverse_def)
qed

text \<open>
  Claim C6. \<^verbatim>\<open>Reverse\<close> preserves the length of the sequence, a second \<^verbatim>\<open>Reverse\<close> restores
  the original sequence, and one \<^verbatim>\<open>Reverse\<close> leaves the multiset of elements unchanged.
\<close>

theorem Reverse_involution:
  "\<exists>b. Reverse a = Inr b \<and> length b = length a \<and> mset b = mset a \<and> Reverse b = Inr a"
  by (simp add: Reverse_rev)

theorem Reverse_involution_witness:
  "Reverse [1, 2, 3, 4, 5 :: int] = Inr [5, 4, 3, 2, 1] \<and>
   Reverse [5, 4, 3, 2, 1 :: int] = Inr [1, 2, 3, 4, 5]"
proof -
  have "Reverse [1, 2, 3, 4, 5 :: int] = Inr [5, 4, 3, 2, 1]"
    by code_simp
  with Reverse_involution [of "[1, 2, 3, 4, 5 :: int]"] show ?thesis
    by auto
qed


section \<open>Batch cuts consecutive chunks\<close>

lemma elems_go_append: "elems (go_append b x) = elems b @ [x]"
  by (cases b) simp_all

lemma elems_go_extend: "elems (go_extend b cs) = elems b @ cs"
  by (induction cs arbitrary: b) (simp_all add: elems_go_append)

text \<open>
  With a positive size the loop returns: each round cuts one full chunk off a slice
  that is longer than the size, so the slice gets shorter. Both slice expressions
  are in range, and what is left over is non-empty unless the input was empty.
\<close>

lemma Batch_loop_chunks:
  "0 < bs \<Longrightarrow>
   \<exists>rest cs. Batch_loop s bs batches = Some (Inr (rest, go_extend batches cs)) \<and>
      concat cs @ rest = s \<and> (\<forall>c\<in>set cs. int (length c) = bs) \<and>
      int (length rest) \<le> bs \<and> (s \<noteq> [] \<longrightarrow> rest \<noteq> [])"
proof (induction "length s" arbitrary: s batches rule: less_induct)
  case less
  show ?case
  proof (cases "bs < int (length s)")
    case False
    then have "Batch_loop s bs batches = Some (Inr (s, go_extend batches []))"
      by (subst Batch_loop.simps) simp
    with False show ?thesis
      by (intro exI [of _ s] exI [of _ "[]"]) simp
  next
    case True
    let ?rest = "drop (nat bs) s"
    let ?chunk = "take (nat bs) s"
    have sf: "slice_from s bs = Inr ?rest"
      using True less.prems by (simp add: slice_from_def)
    have s3: "slice3 s 0 bs bs = Inr ?chunk"
      using True less.prems by (simp add: slice3_def)
    have step: "Batch_loop s bs batches = Batch_loop ?rest bs (go_append batches ?chunk)"
      using True sf s3 by (subst Batch_loop.simps) simp
    have shorter: "length ?rest < length s"
      using True less.prems by simp
    have ne: "?rest \<noteq> []"
      using True less.prems by simp
    from less.hyps [OF shorter less.prems, of "go_append batches ?chunk"]
    obtain rest cs where
      r: "Batch_loop ?rest bs (go_append batches ?chunk) =
            Some (Inr (rest, go_extend (go_append batches ?chunk) cs))"
      and c: "concat cs @ rest = ?rest"
      and a: "\<forall>c\<in>set cs. int (length c) = bs"
      and b: "int (length rest) \<le> bs"
      and n: "rest \<noteq> []"
      using ne by blast
    have "Batch_loop s bs batches = Some (Inr (rest, go_extend batches (?chunk # cs)))"
      using step r by simp
    moreover have "concat (?chunk # cs) @ rest = s"
      using c by simp
    moreover have "\<forall>c\<in>set (?chunk # cs). int (length c) = bs"
      using a True less.prems by simp
    ultimately show ?thesis using b n
      by (intro exI [of _ rest] exI [of _ "?chunk # cs"]) simp
  qed
qed

lemma Batch_chunks:
  assumes "0 < bs"
  shows "\<exists>b. Batch s bs = Some (Inr b) \<and> concat (elems b) = s \<and>
          (\<forall>c\<in>set (butlast (elems b)). int (length c) = bs) \<and>
          (\<forall>c\<in>set (elems b). c \<noteq> []) \<and>
          (elems b \<noteq> [] \<longrightarrow> int (length (last (elems b))) \<le> bs)"
proof -
  from Batch_loop_chunks [OF assms, of s GoNil]
  obtain rest cs where
    r: "Batch_loop s bs GoNil = Some (Inr (rest, go_extend GoNil cs))"
    and c: "concat cs @ rest = s"
    and a: "\<forall>c\<in>set cs. int (length c) = bs"
    and b: "int (length rest) \<le> bs"
    and n: "s \<noteq> [] \<longrightarrow> rest \<noteq> []"
    by blast
  have cs_ne: "\<forall>c\<in>set cs. c \<noteq> []"
    using a assms by auto
  show ?thesis
  proof (cases "rest = []")
    case True
    with n c have "cs = []" using cs_ne by (cases cs) auto
    with True r c assms show ?thesis
      by (simp add: Batch_def)
  next
    case False
    then have "Batch s bs = Some (Inr (go_append (go_extend GoNil cs) rest))"
      using r assms by (simp add: Batch_def)
    moreover have "elems (go_append (go_extend GoNil cs) rest) = cs @ [rest]"
      by (simp add: elems_go_append elems_go_extend)
    ultimately show ?thesis
      using c a b False cs_ne by simp
  qed
qed

lemma Batch_nonpositive: "bs \<le> 0 \<Longrightarrow> Batch s bs = Some (Inr GoNil)"
  by (simp add: Batch_def)

text \<open>
  Claim C3. For \<open>size > 0\<close>, \<^verbatim>\<open>Batch(s, size)\<close> returns the consecutive chunks of \<open>s\<close>:
  every chunk but the last has exactly \<open>size\<close> elements, the last one holds the
  non-empty remainder, and the chunks concatenated in order give \<open>s\<close>. For \<open>size \<le> 0\<close>
  the result is \<^verbatim>\<open>nil\<close>, not an error. \<^verbatim>\<open>Batch([1..7], 3) = [ [1,2,3],[4,5,6],[7] ]\<close>,
  \<^verbatim>\<open>Batch([1..7], 10) = [ [1..7] ]\<close>, and \<^verbatim>\<open>Batch(s, 0)\<close> is empty for every \<open>s\<close>.
\<close>

theorem Batch_consecutive_chunks:
  "(0 < n \<longrightarrow>
      (\<exists>b. Batch s n = Some (Inr b) \<and> concat (elems b) = s \<and>
          (\<forall>c\<in>set (butlast (elems b)). int (length c) = n) \<and>
          (\<forall>c\<in>set (elems b). c \<noteq> []) \<and>
          (elems b \<noteq> [] \<longrightarrow> int (length (last (elems b))) \<le> n))) \<and>
   (n \<le> 0 \<longrightarrow> Batch s n = Some (Inr GoNil)) \<and>
   Batch [1, 2, 3, 4, 5, 6, 7 :: int] 3 = Some (Inr (GoSlice [ [1, 2, 3], [4, 5, 6], [7] ])) \<and>
   Batch [1, 2, 3, 4, 5, 6, 7 :: int] 10 = Some (Inr (GoSlice [ [1, 2, 3, 4, 5, 6, 7] ])) \<and>
   Batch s 0 = Some (Inr GoNil) \<and> elems (GoNil :: 'a list go_slice) = []"
proof -
  have "Batch [1, 2, 3, 4, 5, 6, 7 :: int] 3 = Some (Inr (GoSlice [ [1, 2, 3], [4, 5, 6], [7] ]))"
    by code_simp
  moreover have "Batch [1, 2, 3, 4, 5, 6, 7 :: int] 10 = Some (Inr (GoSlice [ [1, 2, 3, 4, 5, 6, 7] ]))"
    by code_simp
  ultimately show ?thesis
    using Batch_chunks [of n s] Batch_nonpositive [of n s] Batch_nonpositive [of 0 s]
    by simp
qed

theorem Batch_consecutive_chunks_witness:
  "(0::int) < 2 \<and> Batch [1, 2, 3, 4, 5 :: int] 2 = Some (Inr (GoSlice [ [1, 2], [3, 4], [5] ])) \<and>
   concat [ [1, 2], [3, 4], [5 :: int] ] = [1, 2, 3, 4, 5] \<and>
   (- 1 :: int) \<le> 0 \<and> Batch [1, 2, 3, 4, 5 :: int] (- 1) = Some (Inr GoNil)"
proof -
  have e: "Batch [1, 2, 3, 4, 5 :: int] 2 = Some (Inr (GoSlice [ [1, 2], [3, 4], [5] ]))"
    by code_simp
  have "(- 1 :: int) \<le> 0 \<longrightarrow> Batch [1, 2, 3, 4, 5 :: int] (- 1) = Some (Inr GoNil)"
    using Batch_consecutive_chunks [of "- 1" "[1, 2, 3, 4, 5 :: int]"] by blast
  moreover have "(0::int) < 2 \<longrightarrow> (\<exists>b. Batch [1, 2, 3, 4, 5 :: int] 2 = Some (Inr b) \<and>
       concat (elems b) = [1, 2, 3, 4, 5])"
    using Batch_consecutive_chunks [of 2 "[1, 2, 3, 4, 5 :: int]"] by blast
  ultimately show ?thesis using e by simp
qed


section \<open>Delete removes every occurrence\<close>

text \<open>What \<^verbatim>\<open>IndexFunc\<close> returns: \<open>-1\<close> when nothing matches, else the first matching index.\<close>

lemma IndexFunc_loop_none:
  "IndexFunc_loop s f i = - 1 \<Longrightarrow> \<forall>k. i \<le> k \<and> k < length s \<longrightarrow> \<not> f (s ! k)"
proof (induction s f i rule: IndexFunc_loop.induct)
  case (1 s f i)
  show ?case
  proof (cases "i < length s")
    case False
    then show ?thesis by auto
  next
    case True
    from "1.prems" True have nf: "\<not> f (s ! i)"
      by (subst (asm) IndexFunc_loop.simps) (auto split: if_splits)
    with "1.prems" True have "IndexFunc_loop s f (i + 1) = - 1"
      by (subst (asm) IndexFunc_loop.simps) simp
    with "1.IH" [OF True nf] have later: "\<forall>k. i + 1 \<le> k \<and> k < length s \<longrightarrow> \<not> f (s ! k)"
      by simp
    show ?thesis
    proof (intro allI impI)
      fix k assume k: "i \<le> k \<and> k < length s"
      show "\<not> f (s ! k)"
      proof (cases "k = i")
        case True
        with nf show ?thesis by simp
      next
        case False
        with k have "i + 1 \<le> k \<and> k < length s" by simp
        with later show ?thesis by blast
      qed
    qed
  qed
qed

lemma IndexFunc_loop_some:
  "IndexFunc_loop s f i \<noteq> - 1 \<Longrightarrow>
   \<exists>k. IndexFunc_loop s f i = int k \<and> i \<le> k \<and> k < length s \<and> f (s ! k) \<and>
       (\<forall>j. i \<le> j \<and> j < k \<longrightarrow> \<not> f (s ! j))"
proof (induction s f i rule: IndexFunc_loop.induct)
  case (1 s f i)
  show ?case
  proof (cases "i < length s")
    case False
    with "1.prems" show ?thesis by (subst (asm) IndexFunc_loop.simps) simp
  next
    case True
    show ?thesis
    proof (cases "f (s ! i)")
      case found: True
      with True have "IndexFunc_loop s f i = int i"
        by (subst IndexFunc_loop.simps) simp
      with True found show ?thesis by auto
    next
      case nf: False
      with True have step: "IndexFunc_loop s f i = IndexFunc_loop s f (i + 1)"
        by (subst IndexFunc_loop.simps) simp
      with "1.prems" "1.IH" [OF True nf]
      obtain k where k: "IndexFunc_loop s f (i + 1) = int k" "i + 1 \<le> k" "k < length s" "f (s ! k)"
        "\<forall>j. i + 1 \<le> j \<and> j < k \<longrightarrow> \<not> f (s ! j)"
        by auto
      have "\<forall>j. i \<le> j \<and> j < k \<longrightarrow> \<not> f (s ! j)"
      proof (intro allI impI)
        fix j assume j: "i \<le> j \<and> j < k"
        show "\<not> f (s ! j)"
        proof (cases "j = i")
          case True
          with nf show ?thesis by simp
        next
          case False
          with j have "i + 1 \<le> j \<and> j < k" by simp
          with k(5) show ?thesis by blast
        qed
      qed
      with k step show ?thesis by auto
    qed
  qed
qed

text \<open>
  The compacting loop of \<^verbatim>\<open>DeleteFunc\<close>: the write index \<open>i\<close> stays below the read
  index \<open>j\<close>, so every write is in range and the part still to be read is untouched.
\<close>

lemma DeleteFunc_loop_filter:
  "0 \<le> i \<Longrightarrow> i < j \<Longrightarrow> j \<le> int (length s) \<Longrightarrow>
   \<exists>s'. DeleteFunc_loop s del i j =
           Inr (s', i + int (length (filter (\<lambda>x. \<not> del x) (drop (nat j) s)))) \<and>
        length s' = length s \<and>
        take (nat i + length (filter (\<lambda>x. \<not> del x) (drop (nat j) s))) s' =
          take (nat i) s @ filter (\<lambda>x. \<not> del x) (drop (nat j) s)"
proof (induction s del i j rule: DeleteFunc_loop.induct)
  case (1 s del i j)
  show ?case
  proof (cases "j < int (length s)")
    case False
    with "1.prems" show ?thesis by (subst DeleteFunc_loop.simps) simp
  next
    case True
    have j0: "0 \<le> j" using "1.prems" by simp
    have nj: "nat j < length s" using True j0 by simp
    have d: "drop (nat j) s = s ! nat j # drop (nat (j + 1)) s"
      using nj j0 by (simp add: Cons_nth_drop_Suc nat_add_distrib)
    show ?thesis
    proof (cases "del (s ! nat j)")
      case deleted: True
      have "\<exists>s'. DeleteFunc_loop s del i (j + 1) =
           Inr (s', i + int (length (filter (\<lambda>x. \<not> del x) (drop (nat (j + 1)) s)))) \<and>
        length s' = length s \<and>
        take (nat i + length (filter (\<lambda>x. \<not> del x) (drop (nat (j + 1)) s))) s' =
          take (nat i) s @ filter (\<lambda>x. \<not> del x) (drop (nat (j + 1)) s)"
        using "1.IH"(2) [OF True j0] deleted "1.prems" True by simp
      moreover have "DeleteFunc_loop s del i j = DeleteFunc_loop s del i (j + 1)"
        using True j0 deleted by (subst DeleteFunc_loop.simps) simp
      ultimately show ?thesis using d deleted by simp
    next
      case kept: False
      let ?v = "s ! nat j"
      let ?s2 = "s[nat i := ?v]"
      let ?f = "filter (\<lambda>x. \<not> del x) (drop (nat (j + 1)) s)"
      have rng: "0 \<le> i \<and> i < int (length s)" using "1.prems" True by simp
      have d2: "drop (nat (j + 1)) ?s2 = drop (nat (j + 1)) s"
        using "1.prems" by simp
      have ni: "nat i < length s" using rng by linarith
      have t2: "take (nat (i + 1)) ?s2 = take (nat i) s @ [?v]"
        using rng ni by (simp add: nat_add_distrib take_Suc_conv_app_nth)
      have "\<exists>s'. DeleteFunc_loop ?s2 del (i + 1) (j + 1) =
           Inr (s', i + 1 + int (length (filter (\<lambda>x. \<not> del x) (drop (nat (j + 1)) ?s2)))) \<and>
        length s' = length ?s2 \<and>
        take (nat (i + 1) + length (filter (\<lambda>x. \<not> del x) (drop (nat (j + 1)) ?s2))) s' =
          take (nat (i + 1)) ?s2 @ filter (\<lambda>x. \<not> del x) (drop (nat (j + 1)) ?s2)"
        using "1.IH"(1) [OF True j0 kept rng] "1.prems" True by simp
      then obtain s' where
        r: "DeleteFunc_loop ?s2 del (i + 1) (j + 1) = Inr (s', i + 1 + int (length ?f))"
        and l: "length s' = length s"
        and t: "take (nat (i + 1) + length ?f) s' = take (nat i) s @ [?v] @ ?f"
        unfolding d2 t2 by auto
      have "DeleteFunc_loop s del i j = Inr (s', i + 1 + int (length ?f))"
        using True j0 kept rng r by (subst DeleteFunc_loop.simps) simp
      moreover have "nat (i + 1) = nat i + 1" using rng by linarith
      ultimately show ?thesis using l t d kept by simp
    qed
  qed
qed

lemma slices_DeleteFunc_filter:
  "slices_DeleteFunc zero s del = Inr (filter (\<lambda>x. \<not> del x) s)"
proof (cases "slices_IndexFunc s del = - 1")
  case True
  then have "\<forall>k. k < length s \<longrightarrow> \<not> del (s ! k)"
    using IndexFunc_loop_none [of s del 0] by (simp add: slices_IndexFunc_def)
  then have "filter (\<lambda>x. \<not> del x) s = s"
    by (auto simp: filter_id_conv in_set_conv_nth)
  with True show ?thesis by (simp add: slices_DeleteFunc_def)
next
  case False
  then obtain k where k: "slices_IndexFunc s del = int k" "k < length s" "del (s ! k)"
    "\<forall>j. j < k \<longrightarrow> \<not> del (s ! j)"
    using IndexFunc_loop_some [of s del 0] by (auto simp: slices_IndexFunc_def)
  let ?f = "filter (\<lambda>x. \<not> del x) (drop (k + 1) s)"
  from DeleteFunc_loop_filter [of "int k" "int k + 1" s del] k(2)
  obtain s' where r: "DeleteFunc_loop s del (int k) (int k + 1) = Inr (s', int k + int (length ?f))"
    and l: "length s' = length s"
    and t: "take (k + length ?f) s' = take k s @ ?f"
    by (auto simp: nat_add_distrib)
  have "length ?f \<le> length (drop (k + 1) s)"
    by (rule length_filter_le)
  then have "length ?f \<le> length s - (k + 1)"
    by simp
  then have bound: "k + length ?f \<le> length s" using k(2) by simp
  have "\<forall>x\<in>set (take k s). \<not> del x"
    using k(2,4) by (auto simp: in_set_conv_nth)
  then have "filter (\<lambda>x. \<not> del x) (take k s) = take k s"
    by (simp add: filter_id_conv)
  moreover have "s = take k s @ s ! k # drop (k + 1) s"
    using k(2) by (simp add: id_take_nth_drop)
  ultimately have "filter (\<lambda>x. \<not> del x) s = take k s @ ?f"
  proof -
    assume a: "filter (\<lambda>x. \<not> del x) (take k s) = take k s"
      and b: "s = take k s @ s ! k # drop (k + 1) s"
    have "filter (\<lambda>x. \<not> del x) s =
        filter (\<lambda>x. \<not> del x) (take k s @ s ! k # drop (k + 1) s)"
      using b by simp
    also have "\<dots> = take k s @ ?f"
      using a k(3) by simp
    finally show ?thesis .
  qed
  moreover have "slices_DeleteFunc zero s del = Inr (take (k + length ?f) s')"
    using False k(1) r l bound
    by (simp add: slices_DeleteFunc_def Let_def slice_from_def slice_to_def
        zero_from_take zero_from_length nat_add_distrib)
  ultimately show ?thesis using t by simp
qed

text \<open>
  Claim C10. \<^verbatim>\<open>Delete\<close> agrees with \<^verbatim>\<open>Filter\<close> under the negated equality predicate: the
  values returned by \<^verbatim>\<open>Delete(s, v)\<close> are those of \<^verbatim>\<open>Filter(s, x \<mapsto> x != v)\<close>; every
  occurrence of \<open>v\<close> is removed and the other elements keep their relative order.
\<close>

theorem Delete_is_Filter:
  "Delete zero s v = Inr (Filter s (\<lambda>x. x \<noteq> v)) \<and>
   Filter s (\<lambda>x. x \<noteq> v) = filter (\<lambda>x. x \<noteq> v) s \<and>
   v \<notin> set (Filter s (\<lambda>x. x \<noteq> v))"
  by (simp add: Delete_def slices_DeleteFunc_filter Filter_filter)

theorem Delete_is_Filter_witness:
  "Delete (0::int) [1, 2, 3, 2, 4] 2 = Inr [1, 3, 4] \<and>
   Filter [1, 2, 3, 2, 4 :: int] (\<lambda>x. x \<noteq> 2) = [1, 3, 4]"
proof -
  have "Filter [1, 2, 3, 2, 4 :: int] (\<lambda>x. x \<noteq> 2) = [1, 3, 4]"
    by (simp add: Filter_def)
  moreover have "Delete (0::int) [1, 2, 3, 2, 4] 2 = Inr (Filter [1, 2, 3, 2, 4] (\<lambda>x. x \<noteq> 2))"
    using Delete_is_Filter [of 0 "[1, 2, 3, 2, 4 :: int]" 2] by (rule conjunct1)
  ultimately show ?thesis
    by simp
qed

end
